theory Spec2Isabelle
  imports Main "HOL-Library.AList"
begin

section \<open>JavaScript values, arrays and maps\<close>

text \<open>
  The two \<open>MarkovMachine\<close> classes (order 1: single words as states; order 2: bigrams as
  states) handle three kinds of JavaScript values: strings, \<open>null\<close> (the end-of-text
  marker stored in the chains) and \<open>undefined\<close> (what an out-of-range array read, a
  \<open>Map.get\<close> of a missing key or a missing destructuring element gives).  Strings are
  \<open>string\<close>, so the model covers texts of 8-bit characters.
\<close>

datatype jsval = Undefined | Null | Str string

text \<open>The only exception the classes can raise: reading a property of \<open>undefined\<close>.\<close>

datatype error = TypeError

text \<open>\<open>ToString\<close>, as applied by \<open>+\<close> with a string operand.\<close>

fun to_string :: "jsval \<Rightarrow> string" where
  "to_string Undefined = ''undefined''"
| "to_string Null = ''null''"
| "to_string (Str s) = s"

text \<open>\<open>ar[i]\<close> on an array: \<open>undefined\<close> out of range.\<close>

definition array_get :: "jsval list \<Rightarrow> nat \<Rightarrow> jsval" where
  "array_get ar i = (if i < length ar then ar ! i else Undefined)"

text \<open>\<open>v || null\<close>: the left operand unless it is falsy (\<open>undefined\<close>, \<open>null\<close>, the empty string).\<close>

fun or_null :: "jsval \<Rightarrow> jsval" where
  "or_null (Str s) = (if s = [] then Null else Str s)"
| "or_null v = Null"

text \<open>
  A \<open>Map\<close> with string keys and array values keeps its entries in insertion order: an
  association list.  \<open>chains.has(k)\<close>, \<open>chains.get(k)\<close> (\<open>None\<close> is \<open>undefined\<close>),
  \<open>chains.get(k).push(v)\<close> and \<open>chains.set(k, vs)\<close>.
\<close>

type_synonym chain_table = "(string \<times> jsval list) list"

definition map_has :: "chain_table \<Rightarrow> string \<Rightarrow> bool" where
  "map_has tbl k = (map_of tbl k \<noteq> None)"

fun map_get :: "chain_table \<Rightarrow> jsval \<Rightarrow> jsval list option" where
  "map_get tbl (Str k) = map_of tbl k"
| "map_get tbl v = None"

definition map_push :: "chain_table \<Rightarrow> string \<Rightarrow> jsval \<Rightarrow> chain_table" where
  "map_push tbl k v = AList.map_entry k (\<lambda>vs. vs @ [v]) tbl"

definition map_set :: "chain_table \<Rightarrow> string \<Rightarrow> jsval list \<Rightarrow> chain_table" where
  "map_set tbl k vs = AList.update k vs tbl"

text \<open>\<open>Array.from(chains.keys())\<close>\<close>

definition map_keys :: "chain_table \<Rightarrow> jsval list" where
  "map_keys tbl = map (\<lambda>kv. Str (fst kv)) tbl"

text \<open>\<open>out.join(" ")\<close>: \<open>undefined\<close> and \<open>null\<close> elements are joined as empty strings.\<close>

fun join_elem :: "jsval \<Rightarrow> string" where
  "join_elem (Str s) = s"
| "join_elem v = []"

fun join :: "jsval list \<Rightarrow> string" where
  "join [] = []"
| "join [v] = join_elem v"
| "join (v # w # vs) = join_elem v @ '' '' @ join (w # vs)"

section \<open>The tokenizer\<close>

text \<open>The character class \<open>[ \r\n]\<close>.\<close>

definition is_delim :: "char \<Rightarrow> bool" where
  "is_delim c = (c = CHR '' '' \<or> c = CHR 0x0D \<or> c = CHR 0x0A)"

text \<open>
  \<open>text.split(/[ \r\n]+/)\<close>: the piece before the next match, then the split of what
  follows the match; a match is a maximal run of delimiters.  A string with no match
  is returned whole (also the empty string), and a match at the start or at the end
  of the text leaves an empty piece there.
\<close>

function split_delims :: "string \<Rightarrow> string list" where
  "split_delims s =
     (case dropWhile (\<lambda>c. \<not> is_delim c) s of
        [] \<Rightarrow> [s]
      | d # r \<Rightarrow> takeWhile (\<lambda>c. \<not> is_delim c) s # split_delims (dropWhile is_delim r))"
  by pat_completeness auto
termination
proof (relation "measure length")
  fix s :: string and d r
  assume "dropWhile (\<lambda>c. \<not> is_delim c) s = d # r"
  then have "length s \<ge> Suc (length r)"
    by (metis length_Cons length_dropWhile_le)
  moreover have "length (dropWhile is_delim r) \<le> length r"
    by (rule length_dropWhile_le)
  ultimately show "(dropWhile is_delim r, s) \<in> measure length"
    by simp
qed simp

declare split_delims.simps [simp del]

text \<open>The constructor's two lines: split, then \<open>words.filter(c => c !== "")\<close>.\<close>

definition tokenize :: "string \<Rightarrow> string list" where
  "tokenize text = filter (\<lambda>c. c \<noteq> []) (split_delims text)"

section \<open>Random choice\<close>

text \<open>
  \<open>choice(ar)\<close> is \<open>ar[Math.floor(Math.random() * ar.length)]\<close>.  The random source is
  a parameter: \<open>rnd i\<close> stands for the \<open>i\<close>-th call of \<open>Math.random()\<close> of a run,
  and the index it selects in an array of \<open>n > 0\<close> elements is \<open>rnd i mod n\<close>, which
  takes every value below \<open>n\<close> as \<open>Math.random()\<close> takes every value in \<open>[0, 1)\<close>.
  On an empty array the index is 0 and the read gives \<open>undefined\<close>; on \<open>undefined\<close>
  (\<open>None\<close>) reading \<open>ar.length\<close> throws.
\<close>

type_synonym rand_source = "nat \<Rightarrow> nat"

fun choice :: "nat \<Rightarrow> jsval list option \<Rightarrow> error + jsval" where
  "choice r None = Inl TypeError"
| "choice r (Some ar) = Inr (if ar = [] then Undefined else array_get ar (r mod length ar))"

section \<open>The machines\<close>

record MarkovMachine =
  words :: "string list"
  chains :: chain_table

subsection \<open>Order 1\<close>

text \<open>\<open>this.words[i]\<close> as a value: \<open>undefined\<close> past the end.\<close>

definition word_at :: "string list \<Rightarrow> nat \<Rightarrow> jsval" where
  "word_at ws i = (if i < length ws then Str (ws ! i) else Undefined)"

text \<open>One iteration of the loop of \<open>makeChains\<close>, at index \<open>i < words.length\<close>.\<close>

definition chain_step :: "string list \<Rightarrow> chain_table \<Rightarrow> nat \<Rightarrow> chain_table" where
  "chain_step ws tbl i =
     (let word = ws ! i;
          nextWord = or_null (word_at ws (i + 1))
      in if map_has tbl word then map_push tbl word nextWord
         else map_set tbl word [nextWord])"

definition makeChains :: "string list \<Rightarrow> chain_table" where
  "makeChains ws = foldl (chain_step ws) [] [0..<length ws]"

definition new_MarkovMachine :: "string \<Rightarrow> MarkovMachine" where
  "new_MarkovMachine text =
     (let ws = tokenize text in \<lparr>words = ws, chains = makeChains ws\<rparr>)"

text \<open>
  The loop of \<open>makeText\<close>.  Draw 0 picks the start key; the iteration that pushes the
  \<open>n\<close>-th element of \<open>out\<close> makes draw \<open>n\<close>.  The result is the number of times the
  loop body was entered, with either the exception or the final \<open>out\<close>.  A call
  \<open>makeText()\<close> without argument has \<open>numWords = 100\<close>.
\<close>

function walk :: "chain_table \<Rightarrow> rand_source \<Rightarrow> int \<Rightarrow> jsval \<Rightarrow> jsval list \<Rightarrow> nat \<times> (error + jsval list)" where
  "walk tbl rnd numWords key out =
     (if int (length out) < numWords \<and> key \<noteq> Null then
        (case choice (rnd (Suc (length out))) (map_get tbl key) of
           Inl e \<Rightarrow> (Suc (length out), Inl e)
         | Inr key' \<Rightarrow> walk tbl rnd numWords key' (out @ [key]))
      else (length out, Inr out))"
  by pat_completeness auto
termination
  by (relation "measure (\<lambda>(tbl, rnd, numWords, key, out). nat (numWords - int (length out)))") auto

declare walk.simps [simp del]

definition makeText :: "MarkovMachine \<Rightarrow> rand_source \<Rightarrow> int \<Rightarrow> nat \<times> (error + string)" where
  "makeText mm rnd numWords =
     (case choice (rnd 0) (Some (map_keys (chains mm))) of
        Inl e \<Rightarrow> (0, Inl e)
      | Inr key \<Rightarrow> map_prod id (map_sum id join) (walk (chains mm) rnd numWords key []))"

subsection \<open>Order 2\<close>

text \<open>\<open>key.split(" ")\<close>: split at every single space; never empty.\<close>

fun split_space :: "string \<Rightarrow> string list" where
  "split_space [] = [[]]"
| "split_space (c # s) =
     (if c = CHR '' '' then [] # split_space s
      else (case split_space s of [] \<Rightarrow> [[c]] | p # ps \<Rightarrow> (c # p) # ps))"

text \<open>The bigram built at index \<open>i\<close>: \<open>this.words[i] + " " + this.words[i + 1]\<close>.\<close>

definition bigram_at :: "string list \<Rightarrow> nat \<Rightarrow> string" where
  "bigram_at ws i = ws ! i @ '' '' @ ws ! (i + 1)"

definition chain_step2 :: "string list \<Rightarrow> chain_table \<Rightarrow> nat \<Rightarrow> chain_table" where
  "chain_step2 ws tbl i =
     (let bigram = bigram_at ws i;
          nextWord = or_null (word_at ws (i + 2))
      in if map_has tbl bigram then map_push tbl bigram nextWord
         else map_set tbl bigram [nextWord])"

text \<open>The loop runs while \<open>i < this.words.length - 1\<close>: not at all on an empty array.\<close>

definition makeChains2 :: "string list \<Rightarrow> chain_table" where
  "makeChains2 ws = foldl (chain_step2 ws) [] [0..<length ws - 1]"

definition new_MarkovMachine2 :: "string \<Rightarrow> MarkovMachine" where
  "new_MarkovMachine2 text =
     (let ws = tokenize text in \<lparr>words = ws, chains = makeChains2 ws\<rparr>)"

text \<open>
  The loop of the bigram \<open>makeText\<close>.  \<open>key.split\<close> throws on \<open>undefined\<close>; the new key
  is a string concatenation, so a sampled \<open>null\<close> becomes the text \<open>null\<close> in it.
\<close>

function walk2 :: "chain_table \<Rightarrow> rand_source \<Rightarrow> int \<Rightarrow> jsval \<Rightarrow> jsval list \<Rightarrow> nat \<times> (error + jsval list)" where
  "walk2 tbl rnd numWords key out =
     (if int (length out) \<le> numWords \<and> key \<noteq> Null then
        (case key of
           Str k \<Rightarrow>
             (case choice (rnd (Suc (length out))) (map_get tbl key) of
                Inl e \<Rightarrow> (Suc (length out), Inl e)
              | Inr nxt \<Rightarrow>
                  walk2 tbl rnd numWords
                    (Str (to_string (array_get (map Str (split_space k)) 1) @ '' '' @ to_string nxt))
                    (out @ [array_get (map Str (split_space k)) 0]))
         | _ \<Rightarrow> (Suc (length out), Inl TypeError))
      else (length out, Inr out))"
  by pat_completeness auto
termination
  by (relation "measure (\<lambda>(tbl, rnd, numWords, key, out). nat (numWords + 1 - int (length out)))") auto

declare walk2.simps [simp del]

definition makeText2 :: "MarkovMachine \<Rightarrow> rand_source \<Rightarrow> int \<Rightarrow> nat \<times> (error + string)" where
  "makeText2 mm rnd numWords =
     (case choice (rnd 0) (Some (map_keys (chains mm))) of
        Inl e \<Rightarrow> (0, Inl e)
      | Inr key \<Rightarrow> map_prod id (map_sum id join) (walk2 (chains mm) rnd numWords key []))"

section \<open>Notions used by the properties\<close>

text \<open>
  Both \<open>makeChains\<close> loops record one observation per index with the same three lines:
  push onto the key's array if the key is there, else set the key to a new one-element
  array.
\<close>

definition observe :: "chain_table \<Rightarrow> string \<times> jsval \<Rightarrow> chain_table" where
  "observe tbl kv =
     (if map_has tbl (fst kv) then map_push tbl (fst kv) (snd kv)
      else map_set tbl (fst kv) [snd kv])"

text \<open>The distinct elements of a list, in the order of their first occurrences.\<close>

definition first_seen :: "'a list \<Rightarrow> 'a list" where
  "first_seen xs = rev (remdups (rev xs))"

text \<open>The successor at position \<open>j\<close> of a token sequence: the token there, or the end marker.\<close>

definition successor_at :: "string list \<Rightarrow> nat \<Rightarrow> jsval" where
  "successor_at ws j = (if j < length ws then Str (ws ! j) else Null)"

text \<open>
  The white-space characters of the 8-bit range, as JavaScript's \<open>\s\<close> has them: tab,
  line feed, vertical tab, form feed, carriage return, space and no-break space.
\<close>

definition is_whitespace :: "char \<Rightarrow> bool" where
  "is_whitespace c =
     (c = CHR 0x09 \<or> c = CHR 0x0A \<or> c = CHR 0x0B \<or> c = CHR 0x0C \<or> c = CHR 0x0D
      \<or> c = CHR 0x20 \<or> c = CHR 0xA0)"

text \<open>
  The closure of an order-1 table: every array is non-empty and holds only \<open>null\<close> and
  strings that are keys of the table.
\<close>

definition closed_table :: "chain_table \<Rightarrow> bool" where
  "closed_table tbl =
     list_all (\<lambda>kv. snd kv \<noteq> [] \<and>
        list_all (\<lambda>v. case v of Str w \<Rightarrow> map_has tbl w | Null \<Rightarrow> True | Undefined \<Rightarrow> False) (snd kv)) tbl"

section \<open>Properties of the tokenizer\<close>

lemma split_delims_plain:
  assumes "\<forall>c\<in>set s. \<not> is_delim c"
  shows "split_delims s = [s]"
proof -
  from assms have "dropWhile (\<lambda>c. \<not> is_delim c) s = []"
    by simp
  then show ?thesis
    by (subst split_delims.simps) (simp only: list.case)
qed

lemma split_delims_at:
  assumes "\<forall>c\<in>set t. \<not> is_delim c" and "is_delim d"
  shows "split_delims (t @ d # r) = t # split_delims (dropWhile is_delim r)"
proof -
  from assms have "dropWhile (\<lambda>c. \<not> is_delim c) (t @ d # r) = d # r"
    by (simp add: dropWhile_append2)
  moreover from assms have "takeWhile (\<lambda>c. \<not> is_delim c) (t @ d # r) = t"
    by (simp add: takeWhile_append2)
  ultimately show ?thesis
    by (subst split_delims.simps) simp
qed

lemma tokenize_skip_run: "is_delim d \<Longrightarrow> tokenize (d # s) = tokenize (dropWhile is_delim s)"
  using split_delims_at [of "[]" d s] by (simp add: tokenize_def)

lemma tokenize_dropWhile: "tokenize (dropWhile is_delim s) = tokenize s"
  by (cases s) (simp_all add: tokenize_skip_run)

lemma tokenize_delim: "is_delim d \<Longrightarrow> tokenize (d # s) = tokenize s"
  by (simp add: tokenize_skip_run tokenize_dropWhile)

lemma tokenize_plain: "t \<noteq> [] \<Longrightarrow> \<forall>c\<in>set t. \<not> is_delim c \<Longrightarrow> tokenize t = [t]"
  by (simp add: tokenize_def split_delims_plain)

lemma tokenize_token:
  assumes "t \<noteq> []" and "\<forall>c\<in>set t. \<not> is_delim c" and "is_delim d"
  shows "tokenize (t @ d # s) = t # tokenize s"
proof -
  have "tokenize (t @ d # s) = t # tokenize (dropWhile is_delim s)"
    using assms by (simp add: tokenize_def split_delims_at)
  then show ?thesis
    by (simp add: tokenize_dropWhile)
qed

lemma concat_tokenize: "concat (tokenize s) = filter (\<lambda>c. \<not> is_delim c) s"
proof (induction s rule: length_induct)
  case (1 s)
  let ?t = "takeWhile (\<lambda>c. \<not> is_delim c) s"
  have plain: "\<forall>c\<in>set ?t. \<not> is_delim c"
    by (auto dest: set_takeWhileD)
  then have keep: "filter (\<lambda>c. \<not> is_delim c) ?t = ?t"
    by simp
  show ?case
  proof (cases "dropWhile (\<lambda>c. \<not> is_delim c) s")
    case Nil
    then have all: "\<forall>c\<in>set s. \<not> is_delim c"
      by (simp only: dropWhile_eq_Nil_conv)
    show ?thesis
    proof (cases "s = []")
      case True
      then show ?thesis by (simp add: tokenize_def split_delims_plain)
    next
      case False
      from False all have "tokenize s = [s]"
        by (rule tokenize_plain)
      with all show ?thesis by simp
    qed
  next
    case (Cons d r)
    then have d: "is_delim d"
      by (metis hd_dropWhile list.distinct(1) list.sel(1))
    from Cons have shape: "?t @ d # r = s"
      by (metis takeWhile_dropWhile_id)
    then have "length s = length ?t + Suc (length r)"
      by (metis length_append length_Cons)
    then have "length r < length s"
      by arith
    with "1.IH" have ih: "concat (tokenize r) = filter (\<lambda>c. \<not> is_delim c) r"
      by blast
    have "concat (tokenize (?t @ d # r)) = ?t @ concat (tokenize r)"
    proof (cases "?t = []")
      case True
      with d show ?thesis by (simp only: append_Nil tokenize_delim)
    next
      case False
      from tokenize_token [OF False plain d] show ?thesis by (simp only: concat.simps)
    qed
    moreover have "filter (\<lambda>c. \<not> is_delim c) (?t @ d # r) = ?t @ filter (\<lambda>c. \<not> is_delim c) r"
      using d by (simp only: filter_append keep filter.simps) simp
    ultimately have "concat (tokenize (?t @ d # r)) = filter (\<lambda>c. \<not> is_delim c) (?t @ d # r)"
      using ih by (simp only:)
    then show ?thesis
      by (simp only: shape)
  qed
qed

lemma split_delims_pieces: "\<forall>c\<in>set p. \<not> is_delim c" if "p \<in> set (split_delims s)"
  using that
proof (induction s rule: split_delims.induct)
  case (1 s)
  show ?case
  proof (cases "dropWhile (\<lambda>c. \<not> is_delim c) s")
    case Nil
    then have "\<forall>c\<in>set s. \<not> is_delim c"
      by (simp only: dropWhile_eq_Nil_conv)
    then have "split_delims s = [s]"
      by (rule split_delims_plain)
    with \<open>\<forall>c\<in>set s. \<not> is_delim c\<close> "1.prems" show ?thesis
      by simp
  next
    case (Cons d r)
    have piece: "\<forall>c\<in>set (takeWhile (\<lambda>c. \<not> is_delim c) s). \<not> is_delim c"
      by (auto dest: set_takeWhileD)
    have "split_delims s = takeWhile (\<lambda>c. \<not> is_delim c) s # split_delims (dropWhile is_delim r)"
      by (subst split_delims.simps) (simp only: Cons list.case)
    with "1.prems" have "p = takeWhile (\<lambda>c. \<not> is_delim c) s \<or> p \<in> set (split_delims (dropWhile is_delim r))"
      by (simp only: set_simps insert_iff)
    with piece "1.IH" [OF Cons] show ?thesis
      by blast
  qed
qed

text \<open>
  Claim C7.  The tokenizer is a function of the text alone.  The split cuts the text at
  every maximal run of space, carriage return and line feed (a piece may be empty: before
  a run at the start, after a run at the end), and the tokens are the non-empty pieces:
  a delimiter in front is skipped, a non-empty delimiter-free stretch that ends the text
  or stands before a delimiter is one token, and the tokens put together are the text
  without its delimiters, character for character.
\<close>

theorem tokenize_splits_on_runs:
  "tokenize [] = []
   \<and> (is_delim d \<longrightarrow> tokenize (d # s) = tokenize s)
   \<and> (t \<noteq> [] \<and> (\<forall>c\<in>set t. \<not> is_delim c) \<longrightarrow>
        tokenize t = [t] \<and> (is_delim d \<longrightarrow> tokenize (t @ d # s) = t # tokenize s))
   \<and> concat (tokenize text) = filter (\<lambda>c. \<not> is_delim c) text
   \<and> tokenize text = filter (\<lambda>p. p \<noteq> []) (split_delims text)
   \<and> ((\<forall>c\<in>set p. \<not> is_delim c) \<longrightarrow>
        split_delims p = [p]
      \<and> (is_delim d \<longrightarrow> split_delims (p @ d # s) = p # split_delims (dropWhile is_delim s)))
   \<and> (is_delim c \<longleftrightarrow> c = CHR '' '' \<or> c = CHR 0x0D \<or> c = CHR 0x0A)"
proof -
  have "tokenize text = filter (\<lambda>p. p \<noteq> []) (split_delims text)"
    by (simp add: tokenize_def)
  moreover
  have "tokenize [] = []"
    by (simp add: tokenize_def split_delims.simps)
  moreover have "is_delim c \<longleftrightarrow> c = CHR '' '' \<or> c = CHR 0x0D \<or> c = CHR 0x0A"
    by (simp add: is_delim_def)
  ultimately show ?thesis
    using tokenize_delim [of d s] tokenize_plain [of t] tokenize_token [of t d s]
      concat_tokenize [of "text"] split_delims_plain [of p] split_delims_at [of p d s]
    by blast
qed

theorem tokenize_splits_on_runs_witness:
  "tokenize [CHR '' '', CHR 0x0A, CHR ''a'', CHR ''b'', CHR 0x0D, CHR '' '', CHR ''C'', CHR ''.'', CHR '' '']
     = [''ab'', ''C.'']"
proof -
  have skip: "tokenize (d # s) = tokenize s" if "is_delim d" for d s
    using tokenize_splits_on_runs [of d s] that by blast
  have token: "tokenize (t @ d # s) = t # tokenize s"
    if "t \<noteq> []" and "\<forall>c\<in>set t. \<not> is_delim c" and "is_delim d" for t d s
    using tokenize_splits_on_runs [of d s t] that by blast
  have none: "tokenize [] = []"
    using tokenize_splits_on_runs by blast
  have sp: "is_delim (CHR '' '')" and cr: "is_delim (CHR 0x0D)" and lf: "is_delim (CHR 0x0A)"
    by (simp_all add: is_delim_def)
  have ab: "\<forall>c\<in>set ''ab''. \<not> is_delim c" and c: "\<forall>c\<in>set ''C.''. \<not> is_delim c"
    by (simp_all add: is_delim_def)
  have "tokenize [CHR '' '', CHR 0x0A, CHR ''a'', CHR ''b'', CHR 0x0D, CHR '' '', CHR ''C'', CHR ''.'', CHR '' '']
        = tokenize [CHR 0x0A, CHR ''a'', CHR ''b'', CHR 0x0D, CHR '' '', CHR ''C'', CHR ''.'', CHR '' '']"
    by (rule skip [OF sp])
  also have "\<dots> = tokenize (''ab'' @ CHR 0x0D # [CHR '' '', CHR ''C'', CHR ''.'', CHR '' ''])"
    by (simp only: skip [OF lf] append.simps)
  also have "\<dots> = ''ab'' # tokenize [CHR '' '', CHR ''C'', CHR ''.'', CHR '' '']"
    by (rule token [OF _ ab cr]) simp
  also have "tokenize [CHR '' '', CHR ''C'', CHR ''.'', CHR '' ''] = tokenize (''C.'' @ CHR '' '' # [])"
    by (simp only: skip [OF sp] append.simps)
  also have "\<dots> = ''C.'' # tokenize []"
    by (rule token [OF _ c sp]) simp
  also have "tokenize [] = []"
    by (rule none)
  finally show ?thesis .
qed

text \<open>
  Claim C8, as amended.  Every token is a non-empty string with no space, carriage
  return or line feed in it.
\<close>

theorem tokens_nonempty_delimiter_free:
  "\<forall>t\<in>set (tokenize text). t \<noteq> [] \<and> (\<forall>c\<in>set t. c \<noteq> CHR '' '' \<and> c \<noteq> CHR 0x0D \<and> c \<noteq> CHR 0x0A)"
  using split_delims_pieces [of _ "text"] by (auto simp: tokenize_def is_delim_def)

theorem tokens_nonempty_delimiter_free_witness:
  "''cat'' \<in> set (tokenize ''the cat'') \<and> ''cat'' \<noteq> [] \<and> CHR ''a'' \<noteq> CHR '' ''"
proof -
  have mem: "''cat'' \<in> set (tokenize ''the cat'')" by code_simp
  with tokens_nonempty_delimiter_free [of "''the cat''"] show ?thesis by auto
qed

text \<open>
  Claim C8 as stated, with any white space excluded from tokens, fails: a tab is white
  space and no delimiter, so the text \<open>a<tab>b\<close> is one token with white space inside.
\<close>

theorem token_with_tab:
  "tokenize [CHR ''a'', CHR 0x09, CHR ''b''] = [[CHR ''a'', CHR 0x09, CHR ''b'']]
   \<and> CHR 0x09 \<in> set [CHR ''a'', CHR 0x09, CHR ''b'']
   \<and> is_whitespace (CHR 0x09)"
  by code_simp

section \<open>The chain tables\<close>

lemma first_seen_snoc:
  "first_seen (xs @ [x]) = (if x \<in> set xs then first_seen xs else first_seen xs @ [x])"
  by (simp add: first_seen_def)

lemma set_first_seen: "set (first_seen xs) = set xs"
  by (simp add: first_seen_def)

lemma keys_observe:
  "map fst (observe tbl kv) =
     (if fst kv \<in> set (map fst tbl) then map fst tbl else map fst tbl @ [fst kv])"
proof (cases "map_has tbl (fst kv)")
  case True
  then have "fst kv \<in> set (map fst tbl)"
    by (auto simp: map_has_def dest: map_of_SomeD intro: rev_image_eqI)
  moreover have "map fst (AList.map_entry k f xs) = map fst xs" for k :: string and f and xs :: chain_table
    by (induction xs) auto
  ultimately show ?thesis using True
    by (simp add: observe_def map_push_def)
next
  case False
  then have "fst kv \<notin> set (map fst tbl)"
    by (simp add: map_has_def map_of_eq_None_iff)
  with False show ?thesis
    by (simp add: observe_def map_set_def AList.update_keys)
qed

lemma map_of_observe:
  "map_of (observe tbl kv) =
     (map_of tbl)(fst kv \<mapsto> (case map_of tbl (fst kv) of None \<Rightarrow> [snd kv] | Some vs \<Rightarrow> vs @ [snd kv]))"
  by (auto simp: observe_def map_has_def map_push_def map_set_def AList.map_of_map_entry
      AList.update_conv')

lemma keys_build: "map fst (foldl observe [] kvs) = first_seen (map fst kvs)"
proof (induction kvs rule: rev_induct)
  case Nil
  show ?case by (simp add: first_seen_def)
next
  case (snoc kv kvs)
  then show ?case
    by (simp add: keys_observe first_seen_snoc set_first_seen)
qed

lemma map_of_build:
  "map_of (foldl observe [] kvs) k =
     (if k \<in> fst ` set kvs then Some (map snd (filter (\<lambda>kv. fst kv = k) kvs)) else None)"
proof (induction kvs rule: rev_induct)
  case Nil
  show ?case by simp
next
  case (snoc kv kvs)
  show ?case
  proof (cases "fst kv = k")
    case True
    show ?thesis
    proof (cases "k \<in> fst ` set kvs")
      case seen: True
      with snoc True show ?thesis
        by (simp add: map_of_observe)
    next
      case new: False
      then have "filter (\<lambda>kv. fst kv = k) kvs = []"
        by (auto simp: filter_empty_conv)
      with snoc True new show ?thesis
        by (simp add: map_of_observe)
    qed
  next
    case False
    with snoc show ?thesis
      by (auto simp add: map_of_observe)
  qed
qed

lemma or_null_word_at:
  "\<forall>w\<in>set ws. w \<noteq> [] \<Longrightarrow> or_null (word_at ws j) = successor_at ws j"
  by (simp add: word_at_def successor_at_def)

lemma makeChains_observe:
  "makeChains ws = foldl observe [] (map (\<lambda>i. (ws ! i, or_null (word_at ws (i + 1)))) [0..<length ws])"
proof -
  have "chain_step ws tbl i = observe tbl (ws ! i, or_null (word_at ws (i + 1)))" for tbl i
    by (simp add: chain_step_def observe_def)
  then have "chain_step ws = (\<lambda>tbl i. observe tbl (ws ! i, or_null (word_at ws (i + 1))))"
    by (intro ext)
  then show ?thesis
    by (simp add: makeChains_def foldl_map)
qed

lemma makeChains2_observe:
  "makeChains2 ws =
     foldl observe [] (map (\<lambda>i. (bigram_at ws i, or_null (word_at ws (i + 2)))) [0..<length ws - 1])"
proof -
  have "chain_step2 ws tbl i = observe tbl (bigram_at ws i, or_null (word_at ws (i + 2)))" for tbl i
    by (simp add: chain_step2_def observe_def)
  then have "chain_step2 ws = (\<lambda>tbl i. observe tbl (bigram_at ws i, or_null (word_at ws (i + 2))))"
    by (intro ext)
  then show ?thesis
    by (simp add: makeChains2_def foldl_map)
qed

text \<open>
  Claim C5.  For a sequence of tokens (non-empty strings), the keys of the order-1
  table are the tokens in the order of their first occurrences; the array under a key
  holds, for each index \<open>i\<close> where the key stands, in increasing order of \<open>i\<close>, the
  token at \<open>i + 1\<close>, or \<open>null\<close> when \<open>i\<close> is the last index.  A single token gives
  the one entry \<open>[null]\<close>, and no token gives the empty table.
\<close>

theorem makeChains_inserts:
  assumes tok: "\<forall>w\<in>set ws. w \<noteq> []"
  shows "map fst (makeChains ws) = first_seen ws
       \<and> map_of (makeChains ws) k =
           (if k \<in> set ws
            then Some (map (\<lambda>i. successor_at ws (i + 1)) (filter (\<lambda>i. ws ! i = k) [0..<length ws]))
            else None)
       \<and> makeChains [w] = [(w, [Null])]
       \<and> makeChains [] = []"
proof -
  let ?obs = "map (\<lambda>i. (ws ! i, or_null (word_at ws (i + 1)))) [0..<length ws]"
  have fsts: "map fst ?obs = ws"
    by (simp add: comp_def map_nth)
  have keys: "map fst (makeChains ws) = first_seen ws"
    by (simp only: makeChains_observe keys_build fsts)
  have img: "fst ` set ?obs = set ws"
    using fsts by (metis set_map)
  have "map snd (filter (\<lambda>kv. fst kv = k) ?obs) =
        map (\<lambda>i. successor_at ws (i + 1)) (filter (\<lambda>i. ws ! i = k) [0..<length ws])"
    using tok by (simp add: filter_map comp_def or_null_word_at)
  then have look: "map_of (makeChains ws) k =
           (if k \<in> set ws
            then Some (map (\<lambda>i. successor_at ws (i + 1)) (filter (\<lambda>i. ws ! i = k) [0..<length ws]))
            else None)"
    by (simp only: makeChains_observe map_of_build img)
  have one: "makeChains [w] = [(w, [Null])]"
    by (simp add: makeChains_def chain_step_def map_has_def map_set_def word_at_def)
  have none: "makeChains [] = []"
    by (simp add: makeChains_def)
  from keys look one none show ?thesis by simp
qed


theorem makeChains_inserts_witness:
  "map fst (makeChains [''the'', ''cat'', ''in'', ''the'', ''hat'']) = [''the'', ''cat'', ''in'', ''hat'']
   \<and> map_of (makeChains [''the'', ''cat'', ''in'', ''the'', ''hat'']) ''the'' = Some [Str ''cat'', Str ''hat'']
   \<and> map_of (makeChains [''the'', ''cat'', ''in'', ''the'', ''hat'']) ''hat'' = Some [Null]
   \<and> map_of (makeChains [''the'', ''cat'', ''in'', ''the'', ''hat'']) ''dog'' = None"
proof -
  let ?ws = "[''the'', ''cat'', ''in'', ''the'', ''hat'']"
  have tok: "\<forall>w\<in>set ?ws. w \<noteq> []" by simp
  have keys: "first_seen ?ws = [''the'', ''cat'', ''in'', ''hat'']"
    by code_simp
  have the: "map (\<lambda>i. successor_at ?ws (i + 1)) (filter (\<lambda>i. ?ws ! i = ''the'') [0..<length ?ws])
             = [Str ''cat'', Str ''hat'']"
    by code_simp
  have hat: "map (\<lambda>i. successor_at ?ws (i + 1)) (filter (\<lambda>i. ?ws ! i = ''hat'') [0..<length ?ws])
             = [Null]"
    by code_simp
  from makeChains_inserts [OF tok, of "''the''"] makeChains_inserts [OF tok, of "''hat''"]
    makeChains_inserts [OF tok, of "''dog''"] keys the hat
  show ?thesis by simp
qed

lemma split_space_plain: "CHR '' '' \<notin> set a \<Longrightarrow> split_space a = [a]"
  by (induction a) auto

lemma split_space_bigram:
  "CHR '' '' \<notin> set a \<Longrightarrow> CHR '' '' \<notin> set b \<Longrightarrow> split_space (a @ CHR '' '' # b) = [a, b]"
  by (induction a) (auto simp: split_space_plain)

text \<open>
  Claim C6.  For a sequence of tokens (non-empty strings without spaces), the keys of
  the order-2 table are the bigrams of the indices \<open>0 .. length - 2\<close> in the order of
  their first occurrences; the array under a key holds, for each index \<open>i\<close> where the
  bigram stands, the token at \<open>i + 2\<close>, or \<open>null\<close> when there is none.  Fewer than two
  tokens give the empty table.  A key splits at its space into the two tokens of its
  index, so the keys of two consecutive indices share the token between them.
\<close>

theorem makeChains2_inserts:
  assumes tok: "\<forall>w\<in>set ws. w \<noteq> [] \<and> CHR '' '' \<notin> set w"
  shows "map fst (makeChains2 ws) = first_seen (map (bigram_at ws) [0..<length ws - 1])
       \<and> map_of (makeChains2 ws) k =
           (if k \<in> set (map (bigram_at ws) [0..<length ws - 1])
            then Some (map (\<lambda>i. successor_at ws (i + 2))
                         (filter (\<lambda>i. bigram_at ws i = k) [0..<length ws - 1]))
            else None)
       \<and> (length ws < 2 \<longrightarrow> makeChains2 ws = [])
       \<and> (i + 1 < length ws \<longrightarrow> split_space (bigram_at ws i) = [ws ! i, ws ! (i + 1)])
       \<and> (i + 2 < length ws \<longrightarrow>
            last (split_space (bigram_at ws i)) = hd (split_space (bigram_at ws (i + 1))))"
proof -
  let ?obs = "map (\<lambda>i. (bigram_at ws i, or_null (word_at ws (i + 2)))) [0..<length ws - 1]"
  have fsts: "map fst ?obs = map (bigram_at ws) [0..<length ws - 1]"
    by (simp add: comp_def)
  have keys: "map fst (makeChains2 ws) = first_seen (map (bigram_at ws) [0..<length ws - 1])"
    by (simp only: makeChains2_observe keys_build fsts)
  have img: "fst ` set ?obs = set (map (bigram_at ws) [0..<length ws - 1])"
    using fsts by (metis set_map)
  have "\<forall>w\<in>set ws. w \<noteq> []"
    using tok by simp
  then have "map snd (filter (\<lambda>kv. fst kv = k) ?obs) =
        map (\<lambda>i. successor_at ws (i + 2)) (filter (\<lambda>i. bigram_at ws i = k) [0..<length ws - 1])"
    by (simp add: filter_map comp_def or_null_word_at)
  then have look: "map_of (makeChains2 ws) k =
           (if k \<in> set (map (bigram_at ws) [0..<length ws - 1])
            then Some (map (\<lambda>i. successor_at ws (i + 2))
                         (filter (\<lambda>i. bigram_at ws i = k) [0..<length ws - 1]))
            else None)"
    by (simp only: makeChains2_observe map_of_build img)
  have short: "length ws < 2 \<longrightarrow> makeChains2 ws = []"
  proof
    assume "length ws < 2"
    then have "length ws - 1 = 0" by simp
    then show "makeChains2 ws = []" by (simp add: makeChains2_def)
  qed
  have nsp: "CHR '' '' \<notin> set (ws ! j)" if "j < length ws" for j
    using tok that by (meson nth_mem)
  have pair: "split_space (bigram_at ws j) = [ws ! j, ws ! (j + 1)]" if "j + 1 < length ws" for j
    using that nsp [of j] nsp [of "j + 1"] by (simp add: bigram_at_def split_space_bigram)
  have parts: "i + 1 < length ws \<longrightarrow> split_space (bigram_at ws i) = [ws ! i, ws ! (i + 1)]"
    using pair [of i] by simp
  have overlap: "i + 2 < length ws \<longrightarrow>
            last (split_space (bigram_at ws i)) = hd (split_space (bigram_at ws (i + 1)))"
  proof
    assume "i + 2 < length ws"
    with pair [of i] pair [of "i + 1"]
    show "last (split_space (bigram_at ws i)) = hd (split_space (bigram_at ws (i + 1)))"
      by (simp add: add.commute)
  qed
  from keys look short parts overlap show ?thesis by simp
qed

theorem makeChains2_inserts_witness:
  "map fst (makeChains2 [''the'', ''cat'', ''in'', ''the'', ''hat''])
     = [''the cat'', ''cat in'', ''in the'', ''the hat'']
   \<and> map_of (makeChains2 [''the'', ''cat'', ''in'', ''the'', ''hat'']) ''in the'' = Some [Str ''hat'']
   \<and> map_of (makeChains2 [''the'', ''cat'', ''in'', ''the'', ''hat'']) ''the hat'' = Some [Null]
   \<and> map_of (makeChains2 [''the'', ''cat'', ''in'', ''the'', ''hat'']) ''hat the'' = None
   \<and> makeChains2 [''the''] = []
   \<and> split_space (bigram_at [''the'', ''cat'', ''in'', ''the'', ''hat''] 1) = [''cat'', ''in'']
   \<and> last (split_space (bigram_at [''the'', ''cat'', ''in'', ''the'', ''hat''] 1))
       = hd (split_space (bigram_at [''the'', ''cat'', ''in'', ''the'', ''hat''] (1 + 1)))"
proof -
  let ?ws = "[''the'', ''cat'', ''in'', ''the'', ''hat'']"
  have tok: "\<forall>w\<in>set ?ws. w \<noteq> [] \<and> CHR '' '' \<notin> set w" by simp
  have tok1: "\<forall>w\<in>set [''the'']. w \<noteq> [] \<and> CHR '' '' \<notin> set w" by simp
  have keys: "first_seen (map (bigram_at ?ws) [0..<length ?ws - 1])
                = [''the cat'', ''cat in'', ''in the'', ''the hat'']"
    by code_simp
  have in1: "''in the'' \<in> set (map (bigram_at ?ws) [0..<length ?ws - 1])"
    and in2: "''the hat'' \<in> set (map (bigram_at ?ws) [0..<length ?ws - 1])"
    and out: "''hat the'' \<notin> set (map (bigram_at ?ws) [0..<length ?ws - 1])"
    by code_simp+
  have s1: "map (\<lambda>i. successor_at ?ws (i + 2)) (filter (\<lambda>i. bigram_at ?ws i = ''in the'') [0..<length ?ws - 1])
             = [Str ''hat'']"
    by code_simp
  have s2: "map (\<lambda>i. successor_at ?ws (i + 2)) (filter (\<lambda>i. bigram_at ?ws i = ''the hat'') [0..<length ?ws - 1])
             = [Null]"
    by code_simp
  note at1 = makeChains2_inserts [OF tok, of _ 1]
  have a: "map fst (makeChains2 ?ws) = [''the cat'', ''cat in'', ''in the'', ''the hat'']"
    using at1 [of "''x''"] keys by simp
  have b: "map_of (makeChains2 ?ws) ''in the'' = Some [Str ''hat'']"
    using at1 [of "''in the''"] in1 s1 by simp
  have c: "map_of (makeChains2 ?ws) ''the hat'' = Some [Null]"
    using at1 [of "''the hat''"] in2 s2 by simp
  have d: "map_of (makeChains2 ?ws) ''hat the'' = None"
    using at1 [of "''hat the''"] out by simp
  have e: "makeChains2 [''the''] = []"
    using makeChains2_inserts [OF tok1, of "''x''" 0] by simp
  have f: "split_space (bigram_at ?ws 1) = [''cat'', ''in'']"
    using at1 [of "''x''"] by simp
  have len: "(1::nat) + 2 < length ?ws"
    by simp
  have g: "last (split_space (bigram_at ?ws 1)) = hd (split_space (bigram_at ?ws (1 + 1)))"
    using at1 [of "''x''"] len by blast
  from a b c d e f g show ?thesis by (simp only: simp_thms)
qed

section \<open>The order-1 walk on its own table\<close>

lemma distinct_first_seen: "distinct (first_seen xs)"
  by (simp add: first_seen_def)

lemma closed_table_mem:
  assumes "closed_table tbl" and "(k, vs) \<in> set tbl"
  shows "vs \<noteq> []" and "v \<in> set vs \<Longrightarrow> v = Null \<or> (\<exists>w. v = Str w \<and> map_has tbl w)"
proof -
  from assms have ne: "vs \<noteq> []"
    and all: "\<forall>v\<in>set vs. (case v of Str w \<Rightarrow> map_has tbl w | Null \<Rightarrow> True | Undefined \<Rightarrow> False)"
    by (auto simp: closed_table_def list_all_iff)
  show "vs \<noteq> []" by (rule ne)
  show "v = Null \<or> (\<exists>w. v = Str w \<and> map_has tbl w)" if "v \<in> set vs"
    using all that by (cases v) auto
qed

lemma closed_tableD:
  assumes "closed_table tbl" and "map_of tbl k = Some vs"
  shows "vs \<noteq> []" and "v \<in> set vs \<Longrightarrow> v = Null \<or> (\<exists>w. v = Str w \<and> map_has tbl w)"
  using closed_table_mem [OF assms(1) map_of_SomeD [OF assms(2)]] by blast+

lemma or_null_cases:
  "or_null (word_at ws j) = Null \<or> (j < length ws \<and> or_null (word_at ws j) = Str (ws ! j))"
  by (simp add: word_at_def)

lemma makeChains_closed: "closed_table (makeChains ws)"
proof -
  let ?obs = "map (\<lambda>i. (ws ! i, or_null (word_at ws (i + 1)))) [0..<length ws]"
  let ?tbl = "makeChains ws"
  have fsts: "map fst ?obs = ws"
    by (simp add: comp_def map_nth)
  have keys: "map fst ?tbl = first_seen ws"
    by (simp only: makeChains_observe keys_build fsts)
  then have dist: "distinct (map fst ?tbl)"
    by (simp add: distinct_first_seen)
  have has: "map_has ?tbl w" if "w \<in> set ws" for w
  proof -
    from that keys have "w \<in> fst ` set ?tbl"
      by (metis set_first_seen set_map)
    then show ?thesis
      by (simp add: map_has_def map_of_eq_None_iff)
  qed
  have entry: "vs \<noteq> [] \<and> (\<forall>v\<in>set vs. case v of Str w \<Rightarrow> map_has ?tbl w | Null \<Rightarrow> True | Undefined \<Rightarrow> False)"
    if mem: "(k, vs) \<in> set ?tbl" for k vs
  proof -
    from dist mem have "map_of ?tbl k = Some vs" by simp
    then have look: "map_of (foldl observe [] ?obs) k = Some vs"
      by (simp only: makeChains_observe)
    then have k: "k \<in> fst ` set ?obs"
      and vs: "vs = map snd (filter (\<lambda>kv. fst kv = k) ?obs)"
      by (auto simp: map_of_build split: if_splits)
    from k have "filter (\<lambda>kv. fst kv = k) ?obs \<noteq> []"
      by (auto simp: filter_empty_conv)
    with vs have ne: "vs \<noteq> []" by simp
    have "case v of Str w \<Rightarrow> map_has ?tbl w | Null \<Rightarrow> True | Undefined \<Rightarrow> False"
      if "v \<in> set vs" for v
    proof -
      from that vs obtain i where "v = or_null (word_at ws (i + 1))"
        by auto
      with or_null_cases [of ws "i + 1"] show ?thesis
        by (auto intro!: has nth_mem)
    qed
    with ne show ?thesis by simp
  qed
  show ?thesis
    unfolding closed_table_def list_all_iff using entry by auto
qed

lemma choice_closed:
  assumes "closed_table tbl" and "map_has tbl w"
  shows "\<exists>key'. choice r (map_get tbl (Str w)) = Inr key'
           \<and> (key' = Null \<or> (\<exists>w'. key' = Str w' \<and> map_has tbl w'))"
proof -
  from assms(2) obtain vs where look: "map_of tbl w = Some vs"
    by (auto simp: map_has_def)
  from closed_tableD(1) [OF assms(1) look] have ne: "vs \<noteq> []" .
  then have "r mod length vs < length vs" by simp
  then have "vs ! (r mod length vs) \<in> set vs" by (rule nth_mem)
  from closed_tableD(2) [OF assms(1) look this] look ne show ?thesis
    by (simp add: array_get_def)
qed

lemma walk_closed:
  "closed_table tbl \<Longrightarrow> key = Null \<or> (\<exists>w. key = Str w \<and> map_has tbl w) \<Longrightarrow>
     \<exists>r. snd (walk tbl rnd numWords key out) = Inr r"
proof (induction tbl rnd numWords key out rule: walk.induct)
  case (1 tbl rnd numWords key out)
  show ?case
  proof (cases "int (length out) < numWords \<and> key \<noteq> Null")
    case False
    then show ?thesis by (subst walk.simps) auto
  next
    case enter: True
    with "1.prems"(2) obtain w where key: "key = Str w" and has: "map_has tbl w"
      by auto
    from choice_closed [OF "1.prems"(1) has, of "rnd (Suc (length out))"]
    obtain key' where ch: "choice (rnd (Suc (length out))) (map_get tbl key) = Inr key'"
      and ok: "key' = Null \<or> (\<exists>w'. key' = Str w' \<and> map_has tbl w')"
      using key by auto
    from "1.IH" [OF enter ch "1.prems"(1) ok]
    obtain r where "snd (walk tbl rnd numWords key' (out @ [key])) = Inr r" ..
    with enter ch show ?thesis by (subst walk.simps) auto
  qed
qed

text \<open>
  Claim C10.  In the order-1 table of any text every key has a non-empty array, and
  every entry of an array other than \<open>null\<close> is a string that is a key of the table.
  So on a non-empty table \<open>makeText\<close> never throws, whatever the draws and the bound:
  every lookup of a sampled successor finds its array.
\<close>

theorem order1_table_closed:
  "(\<forall>(k, vs)\<in>set (chains (new_MarkovMachine text)).
       vs \<noteq> [] \<and>
       (\<forall>v\<in>set vs. v \<noteq> Null \<longrightarrow> (\<exists>w. v = Str w \<and> map_has (chains (new_MarkovMachine text)) w)))
   \<and> (chains (new_MarkovMachine text) \<noteq> [] \<longrightarrow>
        (\<exists>s. snd (makeText (new_MarkovMachine text) rnd numWords) = Inr s))"
proof -
  let ?tbl = "makeChains (tokenize text)"
  have tbl: "chains (new_MarkovMachine text) = ?tbl"
    by (simp add: new_MarkovMachine_def Let_def)
  have closed: "closed_table ?tbl"
    by (rule makeChains_closed)
  have inv: "\<forall>(k, vs)\<in>set ?tbl.
       vs \<noteq> [] \<and> (\<forall>v\<in>set vs. v \<noteq> Null \<longrightarrow> (\<exists>w. v = Str w \<and> map_has ?tbl w))"
  proof (clarify, intro conjI ballI impI)
    fix k vs
    assume mem: "(k, vs) \<in> set ?tbl"
    from closed_table_mem(1) [OF closed mem] show "vs \<noteq> []" .
    fix v
    assume "v \<in> set vs" and "v \<noteq> Null"
    with closed_table_mem(2) [OF closed mem, of v] show "\<exists>w. v = Str w \<and> map_has ?tbl w"
      by simp
  qed
  have run: "\<exists>s. snd (makeText (new_MarkovMachine text) rnd numWords) = Inr s" if ne: "?tbl \<noteq> []"
  proof -
    let ?keys = "map_keys ?tbl"
    let ?j = "rnd 0 mod length ?keys"
    from ne have j: "?j < length ?tbl"
      by (simp add: map_keys_def)
    then have start: "choice (rnd 0) (Some ?keys) = Inr (Str (fst (?tbl ! ?j)))"
      using ne by (simp add: map_keys_def array_get_def)
    from j have "fst (?tbl ! ?j) \<in> fst ` set ?tbl"
      by (metis image_eqI nth_mem)
    then have "map_has ?tbl (fst (?tbl ! ?j))"
      by (simp add: map_has_def map_of_eq_None_iff)
    with walk_closed [OF closed, of "Str (fst (?tbl ! ?j))" rnd numWords "[]"]
    obtain r where "snd (walk ?tbl rnd numWords (Str (fst (?tbl ! ?j))) []) = Inr r"
      by auto
    with start show ?thesis
      by (simp add: makeText_def tbl)
  qed
  from inv run show ?thesis
    by (simp only: tbl) blast
qed

theorem order1_table_closed_witness:
  "(''the'', [Str ''cat'', Str ''hat'']) \<in> set (chains (new_MarkovMachine ''the cat in the hat''))
   \<and> map_has (chains (new_MarkovMachine ''the cat in the hat'')) ''hat''
   \<and> (\<exists>s. snd (makeText (new_MarkovMachine ''the cat in the hat'') (\<lambda>i. 0) 100) = Inr s)"
proof -
  let ?mm = "new_MarkovMachine ''the cat in the hat''"
  have tbl: "chains ?mm =
      [(''the'', [Str ''cat'', Str ''hat'']), (''cat'', [Str ''in'']), (''in'', [Str ''the'']),
       (''hat'', [Null])]"
    by code_simp
  note t = order1_table_closed [of "''the cat in the hat''" "\<lambda>i. 0" 100]
  have mem: "(''the'', [Str ''cat'', Str ''hat'']) \<in> set (chains ?mm)"
    by (simp add: tbl)
  from t mem have "\<exists>w. Str ''hat'' = Str w \<and> map_has (chains ?mm) w"
    by fastforce
  then have has: "map_has (chains ?mm) ''hat''" by simp
  from t tbl have "\<exists>s. snd (makeText ?mm (\<lambda>i. 0) 100) = Inr s"
    by simp
  with mem has show ?thesis by simp
qed

section \<open>Generation\<close>

lemma walk_steps: "fst (walk tbl rnd numWords key out) \<le> max (length out) (nat numWords)"
proof (induction tbl rnd numWords key out rule: walk.induct)
  case (1 tbl rnd numWords key out)
  show ?case
  proof (cases "int (length out) < numWords \<and> key \<noteq> Null")
    case False
    then show ?thesis by (subst walk.simps) auto
  next
    case enter: True
    show ?thesis
    proof (cases "choice (rnd (Suc (length out))) (map_get tbl key)")
      case (Inl e)
      with enter show ?thesis by (subst walk.simps) auto
    next
      case (Inr key')
      with enter "1.IH" [of key'] show ?thesis by (subst walk.simps) auto
    qed
  qed
qed

lemma walk2_steps: "fst (walk2 tbl rnd numWords key out) \<le> max (length out) (nat (numWords + 1))"
proof (induction tbl rnd numWords key out rule: walk2.induct)
  case (1 tbl rnd numWords key out)
  show ?case
  proof (cases "int (length out) \<le> numWords \<and> key \<noteq> Null")
    case False
    then show ?thesis by (subst walk2.simps) auto
  next
    case enter: True
    show ?thesis
    proof (cases key)
      case (Str k)
      show ?thesis
      proof (cases "choice (rnd (Suc (length out))) (map_get tbl key)")
        case (Inl e)
        with enter Str show ?thesis by (subst walk2.simps) auto
      next
        case (Inr nxt)
        with enter Str "1.IH" [of k nxt] show ?thesis by (subst walk2.simps) auto
      qed
    next
      case Undefined
      with enter show ?thesis by (subst walk2.simps) auto
    next
      case Null
      with enter show ?thesis by simp
    qed
  qed
qed

text \<open>
  Claim C4.  Both loops end, whatever the table, the draws and the bound are: the
  functions above are total, and the loop body is entered at most \<open>numWords\<close> times
  in the order-1 walk and at most \<open>numWords + 1\<close> times in the order-2 walk (not at
  all below zero).
\<close>

theorem makeText_bounded_steps:
  "fst (makeText mm rnd numWords) \<le> nat numWords
   \<and> fst (makeText2 mm rnd numWords) \<le> nat (numWords + 1)"
proof -
  have "fst (makeText mm rnd numWords) \<le> nat numWords"
    using walk_steps [of "chains mm" rnd numWords _ "[]"]
    by (simp add: makeText_def split: sum.split)
  moreover have "fst (makeText2 mm rnd numWords) \<le> nat (numWords + 1)"
    using walk2_steps [of "chains mm" rnd numWords _ "[]"]
    by (simp add: makeText2_def split: sum.split)
  ultimately show ?thesis by simp
qed

theorem makeText_bounded_steps_witness:
  "fst (makeText (new_MarkovMachine ''the cat in the hat'') (\<lambda>i. 0) 3) \<le> 3
   \<and> fst (makeText2 (new_MarkovMachine2 ''the cat in the hat'') (\<lambda>i. 0) 3) \<le> 4"
  using makeText_bounded_steps [of "new_MarkovMachine ''the cat in the hat''" "\<lambda>i. 0" 3]
    makeText_bounded_steps [of "new_MarkovMachine2 ''the cat in the hat''" "\<lambda>i. 0" 3]
  by simp

subsection \<open>Where the generators leave the specified behaviour\<close>

text \<open>
  Claim C1.  On an empty table the start key is \<open>undefined\<close>, which is not \<open>null\<close>:
  the order-1 loop is entered when \<open>numWords\<close> is positive and \<open>choice\<close> reads the
  length of \<open>chains.get(undefined)\<close>; the order-2 loop is entered when \<open>numWords\<close> is
  not negative and calls \<open>split\<close> on \<open>undefined\<close>.  Both throw a TypeError where the
  empty string is specified.
\<close>

theorem makeText_empty_table_throws:
  "chains mm = [] \<Longrightarrow>
     (0 < numWords \<longrightarrow> makeText mm rnd numWords = (1, Inl TypeError))
   \<and> (0 \<le> numWords \<longrightarrow> makeText2 mm rnd numWords = (1, Inl TypeError))"
  by (simp add: makeText_def makeText2_def map_keys_def walk.simps walk2.simps)

theorem makeText_empty_table_throws_witness:
  "chains (new_MarkovMachine '''') = []
   \<and> makeText (new_MarkovMachine '''') (\<lambda>i. 0) 100 = (1, Inl TypeError)
   \<and> chains (new_MarkovMachine2 ''hello'') = []
   \<and> makeText2 (new_MarkovMachine2 ''hello'') (\<lambda>i. 0) 100 = (1, Inl TypeError)"
proof -
  have e1: "chains (new_MarkovMachine '''') = []" by code_simp
  have e2: "chains (new_MarkovMachine2 ''hello'') = []" by code_simp
  from makeText_empty_table_throws [OF e1, of 100 "\<lambda>i. 0"]
    makeText_empty_table_throws [OF e2, of 100 "\<lambda>i. 0"] e1 e2
  show ?thesis by simp
qed

text \<open>The bigram table of the example corpus.\<close>

lemma the_hat_table:
  "chains (new_MarkovMachine2 ''the cat in the hat'') =
     [(''the cat'', [Str ''in'']), (''cat in'', [Str ''the'']), (''in the'', [Str ''hat'']),
      (''the hat'', [Null])]"
  by code_simp

text \<open>
  Claim C2.  Started at the key \<open>the hat\<close> with the default bound, the order-2 walk
  samples \<open>null\<close>, builds the key \<open>hat null\<close> from it, goes round once more and
  throws a TypeError on the missing entry, where \<open>the\<close> is specified.
\<close>

theorem the_hat_throws:
  "makeText2 (new_MarkovMachine2 ''the cat in the hat'') (rnd(0 := 3)) 100 = (2, Inl TypeError)"
  by (simp add: makeText2_def the_hat_table map_keys_def array_get_def walk2.simps)

text \<open>
  Claim C3.  With \<open>numWords = 2\<close> on the corpus \<open>a a a\<close> the order-2 generator emits
  three tokens, the order-1 generator two: the order-2 loop tests \<open><=\<close> where the
  order-1 loop tests \<open><\<close>.
\<close>

theorem bigram_bound_exceeded:
  "makeText2 (new_MarkovMachine2 ''a a a'') (\<lambda>i. 0) 2 = (3, Inr ''a a a'')
   \<and> makeText (new_MarkovMachine ''a a a'') (\<lambda>i. 0) 2 = (2, Inr ''a a'')"
  by code_simp

text \<open>
  Claim C9.  On the corpus \<open>b null a b\<close>, started at the key \<open>a b\<close>, the order-2 walk
  samples \<open>null\<close>, finds the key \<open>b null\<close> it builds from it in the table and emits
  the text \<open>null\<close> as third token, which is no successor of any key.
\<close>

theorem bigram_emits_null_text:
  "chains (new_MarkovMachine2 ''b null a b'') =
     [(''b null'', [Str ''a'']), (''null a'', [Str ''b'']), (''a b'', [Null])]
   \<and> Str ''null'' \<notin> set (concat (map snd (chains (new_MarkovMachine2 ''b null a b''))))
   \<and> makeText2 (new_MarkovMachine2 ''b null a b'') ((\<lambda>i. 0)(0 := 2)) 2 = (3, Inr ''a b null'')"
  by code_simp

end
